theory Spec2Isabelle
  imports Complex_Main "HOL-Library.Product_Lexorder"
begin

section \<open>Conventions of the embedding\<close>

text \<open>
  The repository is Jython code running inside a SCADA gateway.  Timestamps are modelled by
  their epoch milliseconds (\<open>int\<close>, what \<open>system.date.toMillis\<close> returns), Python integers by
  \<open>int\<close>, and Python floats by \<open>real\<close>: the arithmetic of the modelled functions is read as
  exact arithmetic.  A history dataset in the historian's \<open>Wide\<close> format is a list of rows
  \<open>(timestamp, value)\<close>; the value is \<open>None\<close> where \<open>float(ds.getValueAt(i, 1))\<close> raises
  (the source skips such a row with \<open>continue\<close>).  Reads of the historian, the tag provider
  and the durable store are inputs of the modelled functions.
\<close>

type_synonym dataset = "(int \<times> real option) list"

text \<open>\<open>int(x)\<close> on a float truncates toward zero.\<close>

definition py_int :: "real \<Rightarrow> int" where
  "py_int x = (if 0 \<le> x then \<lfloor>x\<rfloor> else \<lceil>x\<rceil>)"

text \<open>\<open>not tag_path\<close> holds for \<open>None\<close> and for the empty string.\<close>

definition py_falsy_str :: "string option \<Rightarrow> bool" where
  "py_falsy_str p = (case p of None \<Rightarrow> True | Some s \<Rightarrow> s = [])"


section \<open>ProductionRollup: historian positive delta\<close>

text \<open>First loop of \<open>_series_positive_delta\<close>: the first row whose value converts seeds the peak.\<close>

fun first_value :: "dataset \<Rightarrow> real option" where
  "first_value [] = None"
| "first_value ((ts, None) # rows) = first_value rows"
| "first_value ((ts, Some v) # rows) = Some v"

text \<open>Second loop: it runs over every row again, the seeding row included.\<close>

fun delta_loop :: "dataset \<Rightarrow> real \<Rightarrow> real \<Rightarrow> real" where
  "delta_loop [] peak tot = tot"
| "delta_loop ((ts, None) # rows) peak tot = delta_loop rows peak tot"
| "delta_loop ((ts, Some v) # rows) peak tot =
     (if v > peak then delta_loop rows v (tot + (v - peak))
      else delta_loop rows peak tot)"

text \<open>
  \<open>hist\<close> is what \<open>system.tag.queryTagHistory\<close> gave for \<open>[start_dt, end_dt]\<close>:
  \<open>None\<close> when the call raised or returned nothing.
\<close>

definition series_positive_delta ::
  "string option \<Rightarrow> int \<Rightarrow> int \<Rightarrow> dataset option \<Rightarrow> int" where
  "series_positive_delta tag_path start_dt end_dt hist =
     (if py_falsy_str tag_path \<or> start_dt \<ge> end_dt then 0
      else case hist of
        None \<Rightarrow> 0
      | Some ds \<Rightarrow>
          if ds = [] then 0
          else (case first_value ds of
                  None \<Rightarrow> 0
                | Some peak \<Rightarrow> py_int (delta_loop ds peak 0)))"

text \<open>
  The algorithm in the words of the specification: seed the peak with the first sample, then,
  for each subsequent value, add the excess over the peak and raise the peak, or ignore it.
\<close>

fun spec_peak_walk :: "real \<Rightarrow> real \<Rightarrow> real list \<Rightarrow> real" where
  "spec_peak_walk peak tot [] = tot"
| "spec_peak_walk peak tot (v # vs) =
     (if v > peak then spec_peak_walk v (tot + (v - peak)) vs
      else spec_peak_walk peak tot vs)"

definition positiveDelta_spec :: "real list \<Rightarrow> int" where
  "positiveDelta_spec vs =
     (case vs of [] \<Rightarrow> 0 | v # rest \<Rightarrow> py_int (spec_peak_walk v 0 rest))"

text \<open>The values of a dataset that convert to a number, in row order.\<close>

fun numeric_values :: "dataset \<Rightarrow> real list" where
  "numeric_values [] = []"
| "numeric_values ((ts, None) # rows) = numeric_values rows"
| "numeric_values ((ts, Some v) # rows) = v # numeric_values rows"

text \<open>A dataset made of the given counter values, one row per millisecond.\<close>

definition samples :: "real list \<Rightarrow> dataset" where
  "samples vs = zip (map int [0..<length vs]) (map Some vs)"


section \<open>ProductionRollup: live accumulation of a tick\<close>

text \<open>
  The per-station entry of \<open>_state\<close>, as \<open>_ensure_init_station_state\<close> creates it.  The
  keys \<open>line_id\<close>, \<open>tag\<close>, \<open>shift_id\<close> and \<open>shift_date\<close> carry the prefix \<open>rs_\<close> here,
  since the functions below use these names for their parameters.
\<close>

record station_state =
  rs_line_id :: int
  rs_tag :: "string option"
  hour_start_utc :: int
  hour_start_count :: int
  hour_total :: int
  last_peak :: int
  hour_last_flush :: int
  rs_shift_id :: "int option"
  rs_shift_date :: "string option"
  shift_start_count :: int
  shift_total :: int
  week_start_local :: int
  week_total :: int
  past_shift_done_keys :: "(int \<times> string) set"

text \<open>
  The state part of the hour rollover in \<open>run_rollups\<close>; \<open>hr_start_cnt\<close> is the historian
  anchor \<open>_hist_value_at_or_before(tag, cur_hr)\<close>.
\<close>

definition hour_rollover ::
  "int \<Rightarrow> real option \<Rightarrow> int \<Rightarrow> int \<Rightarrow> station_state \<Rightarrow> station_state" where
  "hour_rollover cur_hr hr_start_cnt cur now_ms s =
     s\<lparr>hour_start_utc := cur_hr,
       hour_start_count := (case hr_start_cnt of Some c \<Rightarrow> py_int c | None \<Rightarrow> cur),
       hour_total := 0,
       last_peak := cur,
       hour_last_flush := now_ms\<rparr>"

text \<open>The block "Incremental accumulation (reset-safe)" of \<open>run_rollups\<close>.\<close>

definition accumulate :: "int \<Rightarrow> station_state \<Rightarrow> station_state" where
  "accumulate cur s =
     (if cur \<ge> last_peak s then
        (let inc = cur - last_peak s in
         if inc > 0 then
           s\<lparr>last_peak := cur,
             hour_total := hour_total s + inc,
             shift_total := shift_total s + inc,
             week_total := week_total s + inc\<rparr>
         else s)
      else s\<lparr>last_peak := cur\<rparr>)"

text \<open>
  One tick of a station up to the accumulation: \<open>read\<close> is the live counter of the batch
  read, \<open>None\<close> on bad quality (the source then takes \<open>last_peak\<close>, freezing the state).
\<close>

definition tick_accumulate ::
  "int \<Rightarrow> real option \<Rightarrow> int \<Rightarrow> int option \<Rightarrow> station_state \<Rightarrow> station_state" where
  "tick_accumulate cur_hr hr_start_cnt now_ms read s =
     (let cur = (case read of Some v \<Rightarrow> v | None \<Rightarrow> last_peak s);
          s1 = (if hour_start_utc s \<noteq> cur_hr
                then hour_rollover cur_hr hr_start_cnt cur now_ms s else s)
      in accumulate cur s1)"

text \<open>Successive ticks inside the hour \<open>cur_hr\<close>, with no historian anchor.\<close>

fun run_ticks :: "int \<Rightarrow> int list \<Rightarrow> station_state \<Rightarrow> station_state" where
  "run_ticks cur_hr [] s = s"
| "run_ticks cur_hr (c # cs) s = run_ticks cur_hr cs (tick_accumulate cur_hr None 0 (Some c) s)"


text \<open>A station state in the middle of an hour, for concrete runs.\<close>

definition state0 :: station_state where
  "state0 = \<lparr>rs_line_id = 1, rs_tag = Some ''TotalParts'', hour_start_utc = 0,
     hour_start_count = 40, hour_total = 3, last_peak = 43, hour_last_flush = 0,
     rs_shift_id = None, rs_shift_date = None, shift_start_count = 43, shift_total = 0,
     week_start_local = 0, week_total = 100, past_shift_done_keys = {}\<rparr>"


section \<open>TagValueChange: tri-state AND\<close>

text \<open>
  \<open>_coerce_bool_tristate\<close> yields \<open>True\<close>, \<open>False\<close> or \<open>None\<close>: a \<open>bool option\<close>.
  The loop of \<open>_and_tristate\<close> carries \<open>saw_none\<close> and \<open>saw_true\<close> and returns at the
  first \<open>False\<close>.
\<close>

fun and_tristate_loop :: "bool option list \<Rightarrow> bool \<Rightarrow> bool \<Rightarrow> bool option" where
  "and_tristate_loop [] saw_none saw_true =
     (if saw_none \<and> \<not> saw_true then None
      else if saw_none \<and> saw_true then None
      else if saw_true then Some True else None)"
| "and_tristate_loop (Some False # vs) saw_none saw_true = Some False"
| "and_tristate_loop (None # vs) saw_none saw_true = and_tristate_loop vs True saw_true"
| "and_tristate_loop (Some True # vs) saw_none saw_true = and_tristate_loop vs saw_none True"

definition and_tristate :: "bool option list \<Rightarrow> bool option" where
  "and_tristate vals = and_tristate_loop vals False False"


section \<open>OvercyclePublisher: CT segments and the lookup\<close>

text \<open>
  A CT segment as \<open>_ct_segments\<close> builds it: \<open>(effective_from_utc, ct, mult)\<close>, the start
  in epoch milliseconds.  A row of the store (\<open>getCtSegmentsForStationBetween\<close>) carries the
  start, \<open>ct_eff_sec\<close> and \<open>overcycle_multiplier\<close>, the two numbers \<open>None\<close> where the
  column is NULL.  \<open>_ct_segments\<close> reads \<open>ct_eff_sec or 0.0\<close> and
  \<open>overcycle_multiplier or 2.0\<close>, so a NULL or zero multiplier becomes 2.0, and sorts the
  segments by start with Python's stable sort.  (A row whose conversion raises is skipped by
  the source; the numeric columns of the rows modelled here always convert.)
\<close>

type_synonym ct_segment = "int \<times> real \<times> real"

type_synonym ct_row = "int \<times> real option \<times> real option"

definition ct_segment_of_row :: "ct_row \<Rightarrow> ct_segment" where
  "ct_segment_of_row r =
     (case r of (eff, ct_eff_sec, overcycle_multiplier) \<Rightarrow>
        (eff,
         (case ct_eff_sec of None \<Rightarrow> 0 | Some c \<Rightarrow> if c = 0 then 0 else c),
         (case overcycle_multiplier of None \<Rightarrow> 2 | Some m \<Rightarrow> if m = 0 then 2 else m)))"

definition ct_segments :: "ct_row list \<Rightarrow> ct_segment list" where
  "ct_segments rows = sort_key fst (map ct_segment_of_row rows)"

text \<open>The first loop of \<open>_ct_at\<close> advances while the next segment has started.\<close>

function ct_forward :: "int \<Rightarrow> ct_segment list \<Rightarrow> nat \<Rightarrow> nat" where
  "ct_forward tms segs i =
     (if i + 1 < length segs \<and> fst (segs ! (i + 1)) \<le> tms
      then ct_forward tms segs (i + 1) else i)"
  by pat_completeness auto
termination
  by (relation "measure (\<lambda>(tms, segs, i). length segs - i)") auto

declare ct_forward.simps [simp del]

text \<open>The second loop steps back while the segment at hand starts after the timestamp.\<close>

function ct_backward :: "int \<Rightarrow> ct_segment list \<Rightarrow> nat \<Rightarrow> nat" where
  "ct_backward tms segs i =
     (if i > 0 \<and> fst (segs ! i) > tms
      then ct_backward tms segs (i - 1) else i)"
  by pat_completeness auto
termination
  by (relation "measure (\<lambda>(tms, segs, i). i)") auto

declare ct_backward.simps [simp del]

text \<open>
  \<open>_ct_at(ts, segs, i_hint)\<close>; a hint outside \<open>0 \<le> i_hint < len(segs)\<close> is replaced by 0.
  Both loops read \<open>segs\<close> only at indices below its length.
\<close>

definition ct_at :: "int \<Rightarrow> ct_segment list \<Rightarrow> int \<Rightarrow> real \<times> real \<times> nat" where
  "ct_at tms segs i_hint =
     (let i0 = (if 0 \<le> i_hint \<and> i_hint < int (length segs) then nat i_hint else 0);
          i1 = ct_forward tms segs i0;
          i2 = ct_backward tms segs i1
      in if segs = [] then (0, 2, i2)
         else (case segs ! i2 of (eff, ct, mult) \<Rightarrow> (ct, mult, i2)))"

text \<open>The index that \<open>_ct_at\<close> returns, for any hint.\<close>

definition ct_index :: "int \<Rightarrow> ct_segment list \<Rightarrow> int \<Rightarrow> nat" where
  "ct_index tms segs i_hint = snd (snd (ct_at tms segs i_hint))"

text \<open>Three segments starting at 10, 20 and 30 ms, for concrete lookups.\<close>

definition segs3 :: "ct_segment list" where
  "segs3 = [(10, 30, 2), (20, 40, 3), (30, 50, 2)]"


section \<open>OvercyclePublisher: delta computation\<close>

definition EPSILON :: real where
  "EPSILON = 0"

text \<open>\<open>round(x)\<close> of Python 2 rounds half away from zero; \<open>round(x, 3)\<close> does so at the third decimal.\<close>

definition py_round :: "real \<Rightarrow> real" where
  "py_round x = (if 0 \<le> x then of_int \<lfloor>x + 1 / 2\<rfloor> else - of_int \<lfloor>- x + 1 / 2\<rfloor>)"

definition py_round3 :: "real \<Rightarrow> real" where
  "py_round3 x = py_round (x * 1000) / 1000"

text \<open>
  The values the scan of one station carries from row to row: \<open>(cnt, mx, sum_over, idx)\<close>.
  One pass of the loop body of \<open>_compute_deltas_for_line\<close>: a row whose value does not
  convert is skipped before the lookup; the other guards each \<open>continue\<close> after it.
\<close>

type_synonym oc_totals = "int \<times> real \<times> real \<times> nat"

fun oc_step :: "ct_segment list \<Rightarrow> oc_totals \<Rightarrow> int \<times> real option \<Rightarrow> oc_totals" where
  "oc_step segs (cnt, mx, sum_over, idx) (ts, None) = (cnt, mx, sum_over, idx)"
| "oc_step segs (cnt, mx, sum_over, idx) (ts, Some act) =
     (case ct_at ts segs (int idx) of (ct, mult, idx') \<Rightarrow>
        if ct \<le> 0 then (cnt, mx, sum_over, idx')
        else if act \<le> ct then (cnt, mx, sum_over, idx')
        else if act > ct * mult then (cnt, mx, sum_over, idx')
        else if EPSILON > 0 \<and> act < ct * (1 + EPSILON) then (cnt, mx, sum_over, idx')
        else (let over = act - ct
              in (cnt + 1, (if over > mx then over else mx), sum_over + over, idx')))"

text \<open>The scan runs only when there are segments and a history dataset (\<open>if segs and ds\<close>).\<close>

definition oc_scan :: "ct_segment list \<Rightarrow> dataset option \<Rightarrow> oc_totals" where
  "oc_scan segs ds =
     (case ds of
        None \<Rightarrow> (0, 0, 0, 0)
      | Some rows \<Rightarrow> if segs = [] then (0, 0, 0, 0) else foldl (oc_step segs) (0, 0, 0, 0) rows)"

text \<open>A station of the line, and the cumulative anchor row the computation emits for it.\<close>

record oc_station =
  st_station_id :: int
  st_line_id :: int
  st_area :: string
  st_subarea :: string
  st_line :: string
  st_station :: string

record delta_row =
  row_line_id :: int
  row_station_id :: int
  row_shift_id :: int
  row_shift_date :: string
  row_shift_start_local :: int
  row_shift_end_local :: int
  as_of_local :: int
  inc_over_cnt :: int
  inc_over_sec :: real
  inc_max_over_sec :: real
  slot_duration_min :: int
  is_final :: "int option"

text \<open>
  What the computation reads for a station and a window \<open>[a, b]\<close>: the CT segment rows of
  the store (\<open>getCtSegmentsForStationBetween\<close>, in the store's order), the history of the
  \<open>CycleTime\<close> tag (\<open>_query_ct_history\<close>, \<open>None\<close> when missing or empty) and whether the tag
  exists.
\<close>

record oc_reads =
  ct_rows :: "int \<Rightarrow> int \<Rightarrow> int \<Rightarrow> ct_row list"
  ct_history :: "int \<Rightarrow> int \<Rightarrow> int \<Rightarrow> dataset option"
  has_ct_tag :: "int \<Rightarrow> bool"

definition station_delta_rows ::
  "oc_reads \<Rightarrow> int \<Rightarrow> string \<Rightarrow> int \<Rightarrow> int \<Rightarrow> int \<Rightarrow> int \<Rightarrow> int set \<Rightarrow> oc_station
     \<Rightarrow> delta_row list" where
  "station_delta_rows env shift_id shift_date shift_start a b shift_end include_zero_for st =
     (let sid = st_station_id st;
          lid = st_line_id st;
          segs = ct_segments (ct_rows env sid a b);
          ds = ct_history env sid a b;
          seed_zero = (sid \<in> include_zero_for \<or> has_ct_tag env sid)
      in case oc_scan segs ds of (cnt, mx, sum_over, idx) \<Rightarrow>
           if cnt > 0 \<or> sum_over > 0 \<or> seed_zero then
             [\<lparr>row_line_id = lid, row_station_id = sid, row_shift_id = shift_id,
               row_shift_date = shift_date, row_shift_start_local = shift_start,
               row_shift_end_local = shift_end, as_of_local = b,
               inc_over_cnt = cnt,
               inc_over_sec = py_round3 sum_over,
               inc_max_over_sec = py_round3 mx,
               slot_duration_min = py_int (py_round (of_int (b - shift_start) / 60000)),
               is_final = None\<rparr>]
           else [])"

definition compute_deltas_for_line ::
  "oc_reads \<Rightarrow> oc_station list \<Rightarrow> int \<Rightarrow> string \<Rightarrow> int \<Rightarrow> int \<Rightarrow> int \<Rightarrow> int \<Rightarrow> int set
     \<Rightarrow> delta_row list" where
  "compute_deltas_for_line env stations_on_line shift_id shift_date shift_start a b shift_end
       include_zero_for =
     concat (map (station_delta_rows env shift_id shift_date shift_start a b shift_end
                    include_zero_for) stations_on_line)"

text \<open>
  The classification in the words of the specification (P8), and the overages of a window:
  each numeric sample is judged against the segment the lookup gives for its timestamp.
\<close>

definition overcycle_event :: "real \<Rightarrow> real \<Rightarrow> real \<Rightarrow> bool" where
  "overcycle_event ct mult act = (ct < act \<and> act \<le> ct * mult)"

fun window_overs :: "ct_segment list \<Rightarrow> dataset \<Rightarrow> real list" where
  "window_overs segs [] = []"
| "window_overs segs ((ts, None) # rows) = window_overs segs rows"
| "window_overs segs ((ts, Some act) # rows) =
     (case ct_at ts segs 0 of (ct, mult, i) \<Rightarrow>
        if ct > 0 \<and> overcycle_event ct mult act
        then (act - ct) # window_overs segs rows
        else window_overs segs rows)"

text \<open>What every pass of the scan keeps true of \<open>(cnt, mx, sum_over)\<close>.\<close>

definition oc_inv :: "oc_totals \<Rightarrow> bool" where
  "oc_inv t = (case t of (cnt, mx, sum_over, idx) \<Rightarrow>
     0 \<le> cnt \<and> 0 \<le> mx \<and> mx \<le> sum_over \<and> (cnt = 0 \<longrightarrow> sum_over = 0 \<and> mx = 0))"

text \<open>
  Scenario 6 of the specification: one segment \<open>(ct = 30, mult = 2)\<close> in force from 10:00
  (36000000 ms into the day) and four samples from 10:05 on.
\<close>

definition seg_30_2 :: "ct_segment list" where
  "seg_30_2 = [(36000000, 30, 2)]"

definition rows_30_2 :: "ct_row list" where
  "rows_30_2 = [(36000000, Some 30, Some 2)]"

definition samples_scenario6 :: dataset where
  "samples_scenario6 =
     [(36300000, Some 29), (36301000, Some 35), (36302000, Some 61), (36303000, Some 45)]"

text \<open>
  A line with two stations: station 1 has the scenario's segment and samples, station 2 has
  the \<open>CycleTime\<close> tag and no history in the window.
\<close>

definition reads_scenario6 :: oc_reads where
  "reads_scenario6 =
     \<lparr>ct_rows = (\<lambda>sid a b. if sid = 1 then rows_30_2 else []),
      ct_history = (\<lambda>sid a b. if sid = 1 then Some samples_scenario6 else None),
      has_ct_tag = (\<lambda>sid. True)\<rparr>"

definition line_scenario6 :: "oc_station list" where
  "line_scenario6 =
     [\<lparr>st_station_id = 1, st_line_id = 7, st_area = ''Body'', st_subarea = ''Weld'',
       st_line = ''L1'', st_station = ''S1''\<rparr>,
      \<lparr>st_station_id = 2, st_line_id = 7, st_area = ''Body'', st_subarea = ''Weld'',
       st_line = ''L1'', st_station = ''S2''\<rparr>]"


section \<open>ProductionTargetsLive: effective CT and the debounce\<close>

text \<open>
  \<open>_ct_eff_from_cts(ct_list, fixtures_per_side, parallelism_factor)\<close>.  The comprehension
  keeps the entries with \<open>ct and ct > 0.0\<close>; \<open>parallelism_factor\<close> may be \<open>None\<close>.
\<close>

definition ct_eff_from_cts :: "real list \<Rightarrow> nat \<Rightarrow> real option \<Rightarrow> real" where
  "ct_eff_from_cts ct_list fixtures_per_side parallelism_factor =
     (let cts = filter (\<lambda>ct. ct \<noteq> 0 \<and> ct > 0) ct_list
      in if cts = [] then 0
         else if length cts = 1 then hd cts
         else (let k = length cts;
                   mean_ct = sum_list cts / real k;
                   par_ct = Max (set cts) / real k
               in case parallelism_factor of
                    None \<Rightarrow> mean_ct
                  | Some pf \<Rightarrow>
                      (let lam = max 0 (min 1 pf)
                       in (1 - lam) * mean_ct + lam * par_ct)))"

text \<open>The blend in the words of the specification, for \<open>k \<ge> 2\<close> cycle times.\<close>

definition clamp01 :: "real \<Rightarrow> real" where
  "clamp01 x = (if x < 0 then 0 else if 1 < x then 1 else x)"

definition ct_blend_spec :: "real list \<Rightarrow> real \<Rightarrow> real" where
  "ct_blend_spec c l =
     (1 - l) * (sum_list c / real (length c)) + l * (Max (set c) / real (length c))"

definition DEBOUNCE_TICKS :: int where
  "DEBOUNCE_TICKS = 1"

text \<open>
  The part of the per-station entry of \<open>_tstate\<close> that the debounce reads and writes; a new
  entry has \<open>last_parts_key = None\<close>, \<open>stable_ticks = 0\<close> and \<open>ct_eff = 0.0\<close>.
\<close>

record target_state =
  last_parts_key :: "string option"
  stable_ticks :: int
  ct_eff :: real

definition tstate_init :: target_state where
  "tstate_init = \<lparr>last_parts_key = None, stable_ticks = 0, ct_eff = 0\<rparr>"

text \<open>
  What the earlier part of the station loop of \<open>run_targets\<close> hands to the debounce: the
  parts in use, their cycle times, whether configuration is missing, and the configured cycle
  times slowest first (\<open>[v for (_, v) in slow_sorted]\<close>, empty when \<open>cfg_cts\<close> is empty).
\<close>

record parts_snapshot =
  parts_used :: "string list"
  ct_list :: "real list"
  is_missing_cfg :: bool
  cfg_slowest_first :: "real list"

text \<open>\<open>sep.join(xs)\<close>.\<close>

fun py_join :: "string \<Rightarrow> string list \<Rightarrow> string" where
  "py_join sep [] = []"
| "py_join sep [x] = x"
| "py_join sep (x # y # ys) = x @ sep @ py_join sep (y # ys)"

text \<open>
  The blocks "Debounce CT changes by parts set" and "CT using station parallelism factor" of
  \<open>run_targets\<close>, followed by "Commit CT".  With missing configuration \<open>ct_eff_new\<close> was set
  to 0.0 before.
\<close>

definition debounce_tick :: "nat \<Rightarrow> real \<Rightarrow> parts_snapshot \<Rightarrow> target_state \<Rightarrow> target_state" where
  "debounce_tick fps lam p s =
     (let parts_key = (if parts_used p \<noteq> [] then py_join ''|'' (parts_used p) else '''');
          s1 = (if Some parts_key = last_parts_key s
                then s\<lparr>stable_ticks := min DEBOUNCE_TICKS (stable_ticks s + 1)\<rparr>
                else s\<lparr>last_parts_key := Some parts_key,
                       stable_ticks := (if \<not> is_missing_cfg p then 1 else DEBOUNCE_TICKS)\<rparr>);
          ct_eff_new =
            (if \<not> is_missing_cfg p then
               (if parts_used p \<noteq> [] then
                  (if stable_ticks s1 \<ge> DEBOUNCE_TICKS
                   then ct_eff_from_cts (ct_list p) fps (Some lam)
                   else ct_eff s1)
                else
                  (if ct_eff s1 = 0 \<and> cfg_slowest_first p \<noteq> []
                   then ct_eff_from_cts (take fps (cfg_slowest_first p)) fps (Some lam)
                   else ct_eff s1))
             else 0)
      in s1\<lparr>ct_eff := ct_eff_new\<rparr>)"

text \<open>
  A station running part A (30 s) whose fixture then shows part B (50 s), and a fixture
  showing a part without configuration.
\<close>

definition state_part_A :: target_state where
  "state_part_A = \<lparr>last_parts_key = Some ''A'', stable_ticks = 1, ct_eff = 30\<rparr>"

definition snapshot_part_B :: parts_snapshot where
  "snapshot_part_B = \<lparr>parts_used = [''B''], ct_list = [50], is_missing_cfg = False,
     cfg_slowest_first = [50, 30]\<rparr>"

definition snapshot_unknown_part :: parts_snapshot where
  "snapshot_unknown_part = \<lparr>parts_used = [''X''], ct_list = [], is_missing_cfg = True,
     cfg_slowest_first = [50, 30]\<rparr>"


section \<open>OvercyclePublisher: leaderboards\<close>

definition MAX_TOP :: nat where
  "MAX_TOP = 5"

text \<open>A row of the shift accumulator as \<open>run_overcycle\<close> reads it from the store.\<close>

record acc_row =
  acc_sid :: int
  acc_sum_over :: real
  acc_sum_cnt :: int

text \<open>
  \<open>sorted(xs, key = key, reverse = True)\<close>: Python reverses the list, sorts it with its
  stable sort and reverses the result, so elements with equal keys keep their order.
  A tuple key is compared lexicographically.
\<close>

definition py_sorted_reverse :: "('a \<Rightarrow> 'k::linorder) \<Rightarrow> 'a list \<Rightarrow> 'a list" where
  "py_sorted_reverse key xs = rev (sort_key key (rev xs))"

definition top_tim :: "acc_row list \<Rightarrow> acc_row list" where
  "top_tim acc =
     (if acc \<noteq> []
      then take MAX_TOP (py_sorted_reverse (\<lambda>x. (acc_sum_over x, acc_sum_cnt x)) acc)
      else [])"

definition top_tot :: "acc_row list \<Rightarrow> acc_row list" where
  "top_tot acc =
     (if acc \<noteq> []
      then take MAX_TOP (py_sorted_reverse (\<lambda>x. (acc_sum_cnt x, acc_sum_over x)) acc)
      else [])"

text \<open>The conversions \<open>%d\<close> and \<open>%02d\<close> of Python's string formatting.\<close>

definition digit_char :: "nat \<Rightarrow> char" where
  "digit_char d = ''0123456789'' ! d"

function show_nat :: "nat \<Rightarrow> string" where
  "show_nat n = (if n < 10 then [digit_char n] else show_nat (n div 10) @ [digit_char (n mod 10)])"
  by pat_completeness auto
termination
  by (relation "measure (\<lambda>n. n)") auto

declare show_nat.simps [simp del]

definition fmt_d :: "int \<Rightarrow> string" where
  "fmt_d i = (if i < 0 then ''-'' @ show_nat (nat (- i)) else show_nat (nat i))"

definition fmt_02d :: "int \<Rightarrow> string" where
  "fmt_02d i = (let s = fmt_d i in if length s < 2 then ''0'' @ s else s)"

text \<open>\<open>_fmt_mmss(sec)\<close>, for a float \<open>sec\<close>.\<close>

definition fmt_mmss :: "real \<Rightarrow> string" where
  "fmt_mmss sec =
     (let s = py_int (max 0 (py_round sec))
      in fmt_d (s div 60) @ '':'' @ fmt_02d (s mod 60))"

text \<open>
  \<open>_name(sid)\<close>: the station name of the hierarchy \<open>H\<close>, or \<open>Station_<sid>\<close> when the
  hierarchy has no entry or an empty name.
\<close>

definition station_name :: "(int \<rightharpoonup> string) \<Rightarrow> int \<Rightarrow> string" where
  "station_name H sid =
     (case H sid of
        None \<Rightarrow> ''Station_'' @ fmt_d sid
      | Some n \<Rightarrow> if n \<noteq> [] then n else ''Station_'' @ fmt_d sid)"

text \<open>The \<open>Overcycles\<close> lists of the two payloads: entries \<open>(ID, StnID, Value)\<close>.\<close>

definition overcycles_times :: "(int \<rightharpoonup> string) \<Rightarrow> acc_row list \<Rightarrow> (int \<times> string \<times> string) list" where
  "overcycles_times H acc =
     map (\<lambda>(i, r). (int i + 1, station_name H (acc_sid r), fmt_mmss (acc_sum_over r)))
       (enumerate 0 (top_tim acc))"

definition overcycles_totals :: "(int \<rightharpoonup> string) \<Rightarrow> acc_row list \<Rightarrow> (int \<times> string \<times> int) list" where
  "overcycles_totals H acc =
     map (\<lambda>(i, r). (int i + 1, station_name H (acc_sid r), acc_sum_cnt r))
       (enumerate 0 (top_tot acc))"

text \<open>Two stations with the same summed overage and count, station 2 first in the store's answer.\<close>

definition acc_tie :: "acc_row list" where
  "acc_tie = [\<lparr>acc_sid = 2, acc_sum_over = 10, acc_sum_cnt = 1\<rparr>,
              \<lparr>acc_sid = 1, acc_sum_over = 10, acc_sum_cnt = 1\<rparr>]"

text \<open>Seven stations of a line, for concrete leaderboards.\<close>

definition acc_seven :: "acc_row list" where
  "acc_seven = [\<lparr>acc_sid = 1, acc_sum_over = 20, acc_sum_cnt = 2\<rparr>,
                \<lparr>acc_sid = 2, acc_sum_over = 125, acc_sum_cnt = 4\<rparr>,
                \<lparr>acc_sid = 3, acc_sum_over = 0, acc_sum_cnt = 0\<rparr>,
                \<lparr>acc_sid = 4, acc_sum_over = 20, acc_sum_cnt = 3\<rparr>,
                \<lparr>acc_sid = 5, acc_sum_over = 3700, acc_sum_cnt = 9\<rparr>,
                \<lparr>acc_sid = 6, acc_sum_over = 7 / 2, acc_sum_cnt = 1\<rparr>,
                \<lparr>acc_sid = 7, acc_sum_over = 61, acc_sum_cnt = 9\<rparr>]"


section \<open>OvercyclePublisher: finalizing a just-ended shift\<close>






















text \<open>
  What the finalization reads from the store: the last \<open>as_of\<close> of the line and shift
  (\<open>_line_last_asof\<close>, \<open>None\<close> when the store has none), the stations that already have a
  cumulative row, and the shift accumulator of the line.
\<close>

record oc_store =
  line_last_asof :: "int \<Rightarrow> int \<Rightarrow> int \<Rightarrow> int option"
  existing_station_rows :: "int \<Rightarrow> int \<Rightarrow> int \<Rightarrow> int set"
  shift_accum_for_line :: "int \<Rightarrow> int \<Rightarrow> int \<Rightarrow> int \<Rightarrow> acc_row list"



section \<open>ProductionRollup: late reconciliation of ended shifts\<close>











definition store_before :: oc_store where
  "store_before =
     \<lparr>line_last_asof = (\<lambda>lid shid s. Some 49800000),
      existing_station_rows = (\<lambda>lid shid s. {1}),
      shift_accum_for_line =
        (\<lambda>lid shid s a. [\<lparr>acc_sid = 1, acc_sum_over = 20, acc_sum_cnt = 2\<rparr>])\<rparr>"





section \<open>Historian positive delta: results\<close>

lemma delta_loop_spec_peak_walk:
  "delta_loop ds peak tot = spec_peak_walk peak tot (numeric_values ds)"
  by (induction ds peak tot rule: delta_loop.induct) simp_all

lemma first_value_numeric_values:
  "first_value ds = (case numeric_values ds of [] \<Rightarrow> None | v # rest \<Rightarrow> Some v)"
  by (induction ds rule: first_value.induct) simp_all

lemma spec_peak_walk_total:
  "\<forall>v \<in> set vs. v \<le> peak \<Longrightarrow> spec_peak_walk peak tot vs = tot"
  by (induction vs) simp_all

lemma Max_insert_insert:
  "finite A \<Longrightarrow> Max (insert a (insert b A)) = Max (insert (max a b) A)"
  by (cases "A = {}") (simp_all add: max.assoc)

lemma spec_peak_walk_Max:
  "spec_peak_walk peak tot vs = tot + (Max (insert peak (set vs)) - peak)"
proof (induction vs arbitrary: peak tot)
  case Nil
  show ?case by simp
next
  case (Cons v vs)
  have m: "Max (insert peak (set (v # vs))) = Max (insert (max peak v) (set vs))"
    unfolding list.set by (rule Max_insert_insert) simp
  show ?case
  proof (cases "v > peak")
    case True
    then have "max peak v = v" by simp
    with True m Cons.IH [of v "tot + (v - peak)"] show ?thesis by simp
  next
    case False
    then have "max peak v = peak" by simp
    with False m Cons.IH [of peak tot] show ?thesis by simp
  qed
qed

lemma samples_numeric_values: "numeric_values (zip ts (map Some vs)) = take (length ts) vs"
proof (induction vs arbitrary: ts)
  case Nil
  show ?case by simp
next
  case (Cons v vs)
  show ?case by (cases ts) (simp_all add: Cons.IH)
qed

text \<open>
  Claim C1, as amended.  \<open>_series_positive_delta\<close> walks the numeric samples with a running
  peak: the peak starts at the first sample, every later value above the peak adds its excess
  and becomes the peak, every value at or below the peak is ignored.  The result is therefore
  the truncated difference between the largest sample and the first one, and for the series
  10, 11, 12, 3, 4, 5, 13 it is 3 (the increases 3, 4, 5 after the drop stay below the old
  peak 12 and add nothing).
\<close>

theorem series_positive_delta_peak_walk:
  "(tag_path \<noteq> [] \<and> start_dt < end_dt \<longrightarrow>
      series_positive_delta (Some tag_path) start_dt end_dt (Some ds)
        = positiveDelta_spec (numeric_values ds)
      \<and> (numeric_values ds \<noteq> [] \<longrightarrow>
           series_positive_delta (Some tag_path) start_dt end_dt (Some ds)
             = py_int (Max (set (numeric_values ds)) - hd (numeric_values ds))))
   \<and> series_positive_delta (Some ''TotalParts'') 0 1
        (Some (samples [10, 11, 12, 3, 4, 5, 13])) = 3"
proof -
  have walk: "series_positive_delta (Some p) a b (Some d)
        = positiveDelta_spec (numeric_values d)"
    if "p \<noteq> []" "a < b" for p a b d
  proof (cases "numeric_values d")
    case Nil
    with that show ?thesis
      by (simp add: series_positive_delta_def py_falsy_str_def positiveDelta_spec_def
          first_value_numeric_values)
  next
    case (Cons v rest)
    then have "d \<noteq> []" by auto
    with Cons that show ?thesis
      by (simp add: series_positive_delta_def py_falsy_str_def positiveDelta_spec_def
          first_value_numeric_values delta_loop_spec_peak_walk)
  qed
  have mx: "positiveDelta_spec vs = py_int (Max (set vs) - hd vs)" if "vs \<noteq> []" for vs
  proof -
    from that obtain v rest where vs: "vs = v # rest" by (cases vs) auto
    show ?thesis
      by (simp add: vs positiveDelta_spec_def spec_peak_walk_Max)
  qed
  have ex: "series_positive_delta (Some ''TotalParts'') 0 1
        (Some (samples [10, 11, 12, 3, 4, 5, 13])) = 3"
  proof -
    have "numeric_values (samples [10, 11, 12, 3, 4, 5, 13]) = [10, 11, 12, 3, 4, 5, 13]"
      by (simp add: samples_def samples_numeric_values)
    then show ?thesis
      using walk [of "''TotalParts''" 0 1 "samples [10, 11, 12, 3, 4, 5, 13]"]
      by (simp add: positiveDelta_spec_def py_int_def)
  qed
  from walk mx ex show ?thesis by simp
qed

theorem series_positive_delta_peak_walk_witness:
  "''TotalParts'' \<noteq> [] \<and> (0::int) < 1
   \<and> numeric_values (samples [50, 55, 0, 7]) \<noteq> []
   \<and> series_positive_delta (Some ''TotalParts'') 0 1 (Some (samples [50, 55, 0, 7])) = 5"
proof -
  have nv: "numeric_values (samples [50, 55, 0, 7]) = [50, 55, 0, 7]"
    by (simp add: samples_def samples_numeric_values)
  have "series_positive_delta (Some ''TotalParts'') 0 1 (Some (samples [50, 55, 0, 7]))
          = py_int (Max (set (numeric_values (samples [50, 55, 0, 7])))
                    - hd (numeric_values (samples [50, 55, 0, 7])))"
    using series_positive_delta_peak_walk
      [where tag_path = "''TotalParts''" and start_dt = 0 and end_dt = 1
         and ds = "samples [50, 55, 0, 7]"] nv
    by simp
  then show ?thesis by (simp add: nv py_int_def)
qed

text \<open>
  The value the claim gives for the series 10, 11, 12, 3, 4, 5, 13 is 13; the function
  returns 3.
\<close>

theorem series_positive_delta_example_counterexample:
  "series_positive_delta (Some ''TotalParts'') 0 1
     (Some [(0, Some 10), (1, Some 11), (2, Some 12), (3, Some 3), (4, Some 4),
            (5, Some 5), (6, Some 13)]) = 3
   \<and> series_positive_delta (Some ''TotalParts'') 0 1
     (Some [(0, Some 10), (1, Some 11), (2, Some 12), (3, Some 3), (4, Some 4),
            (5, Some 5), (6, Some 13)]) \<noteq> 13"
  by (simp add: series_positive_delta_def py_falsy_str_def py_int_def)


section \<open>Live accumulation: results\<close>

lemma run_ticks_hour_start:
  "hour_start_utc s = cur_hr \<Longrightarrow> hour_start_utc (run_ticks cur_hr cs s) = cur_hr"
  by (induction cs arbitrary: s) (simp_all add: tick_accumulate_def accumulate_def Let_def)

text \<open>
  Claim C2.  When the current counter is at or above \<open>last_peak\<close>, the difference is added to
  the hour, shift and week totals and \<open>last_peak\<close> becomes the counter; when it is below, the
  counter becomes the new baseline and no total changes, so no total ever decreases.  A
  station whose ticks observe 50, 55, 0, 7 within one hour (the first of them opening the
  hour) has accumulated an hour total of 12.
\<close>

theorem accumulate_reset_safe:
  "(cur \<ge> last_peak s \<longrightarrow>
      accumulate cur s =
        s\<lparr>last_peak := cur,
          hour_total := hour_total s + (cur - last_peak s),
          shift_total := shift_total s + (cur - last_peak s),
          week_total := week_total s + (cur - last_peak s)\<rparr>)
   \<and> (cur < last_peak s \<longrightarrow> accumulate cur s = s\<lparr>last_peak := cur\<rparr>)
   \<and> hour_total s \<le> hour_total (accumulate cur s)
   \<and> shift_total s \<le> shift_total (accumulate cur s)
   \<and> week_total s \<le> week_total (accumulate cur s)
   \<and> (hour_start_utc s \<noteq> cur_hr \<longrightarrow>
        hour_total (run_ticks cur_hr [50, 55, 0, 7] s) = 12)"
proof -
  have a: "cur \<ge> last_peak s \<longrightarrow>
      accumulate cur s =
        s\<lparr>last_peak := cur,
          hour_total := hour_total s + (cur - last_peak s),
          shift_total := shift_total s + (cur - last_peak s),
          week_total := week_total s + (cur - last_peak s)\<rparr>"
    by (cases "cur = last_peak s") (simp_all add: accumulate_def Let_def)
  have b: "cur < last_peak s \<longrightarrow> accumulate cur s = s\<lparr>last_peak := cur\<rparr>"
    by (simp add: accumulate_def)
  have c: "hour_total s \<le> hour_total (accumulate cur s)"
    "shift_total s \<le> shift_total (accumulate cur s)"
    "week_total s \<le> week_total (accumulate cur s)"
    by (simp_all add: accumulate_def Let_def)
  have d: "hour_start_utc s \<noteq> cur_hr \<longrightarrow>
        hour_total (run_ticks cur_hr [50, 55, 0, 7] s) = 12"
    by (simp add: tick_accumulate_def hour_rollover_def accumulate_def Let_def)
  from a b c d show ?thesis by simp
qed

theorem accumulate_reset_safe_witness:
  "50 \<ge> last_peak state0 \<and> 7 < last_peak state0 \<and> hour_start_utc state0 \<noteq> 3600000
   \<and> hour_total (accumulate 50 state0) = 10 \<and> week_total (accumulate 50 state0) = 107
   \<and> last_peak (accumulate 50 state0) = 50
   \<and> hour_total (accumulate 7 state0) = 3 \<and> last_peak (accumulate 7 state0) = 7
   \<and> hour_total (run_ticks 3600000 [50, 55, 0, 7] state0) = 12"
  using accumulate_reset_safe [where s = state0 and cur = 50 and cur_hr = 3600000]
    accumulate_reset_safe [where s = state0 and cur = 7 and cur_hr = 3600000]
  by (simp add: state0_def)


section \<open>Tri-state AND: results\<close>

lemma and_tristate_loop_char:
  "and_tristate_loop vs saw_none saw_true =
     (if Some False \<in> set vs then Some False
      else if None \<in> set vs \<or> saw_none then None
      else if saw_true \<or> vs \<noteq> [] then Some True else None)"
proof (induction vs saw_none saw_true rule: and_tristate_loop.induct)
  case (1 saw_none saw_true)
  show ?case by simp
next
  case (2 vs saw_none saw_true)
  show ?case by simp
next
  case (3 vs saw_none saw_true)
  then show ?case by simp
next
  case (4 vs saw_none saw_true)
  then show ?case by auto
qed

text \<open>
  Claim C9, as amended.  Over a non-empty list the AND-reduce returns false when any value
  is false, otherwise unknown when any value is unknown, otherwise true; over the empty list
  it returns unknown.
\<close>

theorem and_tristate_rule:
  "and_tristate vals =
     (if Some False \<in> set vals then Some False
      else if None \<in> set vals then None
      else if vals = [] then None
      else Some True)"
  by (simp add: and_tristate_def and_tristate_loop_char)

text \<open>
  The empty list holds no false and no unknown value, so the rule of the claim gives true
  there; the function returns unknown.
\<close>

theorem and_tristate_empty_counterexample:
  "Some False \<notin> set ([] :: bool option list) \<and> None \<notin> set ([] :: bool option list)
   \<and> and_tristate [] = None \<and> and_tristate [] \<noteq> Some True"
  by (simp add: and_tristate_def)


section \<open>CT lookup: results\<close>

lemma ct_forward_ge: "i \<le> ct_forward tms segs i"
proof (induction tms segs i rule: ct_forward.induct)
  case (1 tms segs i)
  show ?case
  proof (cases "i + 1 < length segs \<and> fst (segs ! (i + 1)) \<le> tms")
    case True
    with 1 have "i + 1 \<le> ct_forward tms segs (i + 1)" by simp
    with True show ?thesis by (subst ct_forward.simps) simp
  next
    case False
    then show ?thesis by (subst ct_forward.simps) auto
  qed
qed

lemma ct_forward_in_range: "i < length segs \<Longrightarrow> ct_forward tms segs i < length segs"
proof (induction tms segs i rule: ct_forward.induct)
  case (1 tms segs i)
  show ?case
  proof (cases "i + 1 < length segs \<and> fst (segs ! (i + 1)) \<le> tms")
    case True
    with 1 have "ct_forward tms segs (i + 1) < length segs" by simp
    with True show ?thesis by (subst ct_forward.simps) simp
  next
    case False
    with 1 show ?thesis by (subst ct_forward.simps) auto
  qed
qed

lemma ct_forward_stops:
  "ct_forward tms segs i + 1 < length segs
   \<Longrightarrow> tms < fst (segs ! (ct_forward tms segs i + 1))"
proof (induction tms segs i rule: ct_forward.induct)
  case (1 tms segs i)
  show ?case
  proof (cases "i + 1 < length segs \<and> fst (segs ! (i + 1)) \<le> tms")
    case True
    then have eq: "ct_forward tms segs i = ct_forward tms segs (i + 1)"
      by (subst ct_forward.simps) simp
    with 1 True show ?thesis by simp
  next
    case False
    then have eq: "ct_forward tms segs i = i"
      by (subst ct_forward.simps) auto
    with 1 False show ?thesis by auto
  qed
qed

lemma ct_backward_le: "ct_backward tms segs i \<le> i"
proof (induction tms segs i rule: ct_backward.induct)
  case (1 tms segs i)
  show ?case
  proof (cases "i > 0 \<and> fst (segs ! i) > tms")
    case True
    with 1 have "ct_backward tms segs (i - 1) \<le> i - 1" by simp
    with True show ?thesis by (subst ct_backward.simps) simp
  next
    case False
    then show ?thesis by (subst ct_backward.simps) auto
  qed
qed

lemma ct_backward_stops:
  "ct_backward tms segs i = 0 \<or> fst (segs ! ct_backward tms segs i) \<le> tms"
proof (induction tms segs i rule: ct_backward.induct)
  case (1 tms segs i)
  show ?case
  proof (cases "i > 0 \<and> fst (segs ! i) > tms")
    case True
    then have "ct_backward tms segs i = ct_backward tms segs (i - 1)"
      by (subst ct_backward.simps) simp
    with 1 True show ?thesis by simp
  next
    case False
    then have "ct_backward tms segs i = i"
      by (subst ct_backward.simps) auto
    with False show ?thesis by auto
  qed
qed

lemma ct_backward_passed:
  "ct_backward tms segs i < i \<Longrightarrow> tms < fst (segs ! (ct_backward tms segs i + 1))"
proof (induction tms segs i rule: ct_backward.induct)
  case (1 tms segs i)
  show ?case
  proof (cases "i > 0 \<and> fst (segs ! i) > tms")
    case True
    then have eq: "ct_backward tms segs i = ct_backward tms segs (i - 1)"
      by (subst ct_backward.simps) simp
    show ?thesis
    proof (cases "ct_backward tms segs (i - 1) < i - 1")
      case True
      with 1 \<open>i > 0 \<and> fst (segs ! i) > tms\<close> eq show ?thesis by simp
    next
      case False
      with ct_backward_le [of tms segs "i - 1"] have "ct_backward tms segs (i - 1) = i - 1"
        by simp
      with eq \<open>i > 0 \<and> fst (segs ! i) > tms\<close> show ?thesis by simp
    qed
  next
    case False
    then have "ct_backward tms segs i = i"
      by (subst ct_backward.simps) auto
    with 1 show ?thesis by simp
  qed
qed

lemma ct_at_nonempty:
  "segs \<noteq> [] \<Longrightarrow>
     ct_at tms segs i_hint =
       (fst (snd (segs ! ct_index tms segs i_hint)),
        snd (snd (segs ! ct_index tms segs i_hint)),
        ct_index tms segs i_hint)"
  by (simp add: ct_index_def ct_at_def Let_def split: prod.splits)

lemma ct_index_props:
  assumes srt: "sorted (map fst segs)" and ne: "segs \<noteq> []"
  shows "ct_index tms segs i_hint < length segs"
    and "\<forall>j < length segs. ct_index tms segs i_hint < j \<longrightarrow> tms < fst (segs ! j)"
    and "ct_index tms segs i_hint = 0 \<or> fst (segs ! ct_index tms segs i_hint) \<le> tms"
proof -
  define i0 where "i0 = (if 0 \<le> i_hint \<and> i_hint < int (length segs) then nat i_hint else 0)"
  define i1 where "i1 = ct_forward tms segs i0"
  define i2 where "i2 = ct_backward tms segs i1"
  have idx: "ct_index tms segs i_hint = i2"
    using ne by (simp add: ct_index_def ct_at_def Let_def i0_def i1_def i2_def split: prod.splits)
  have mono: "fst (segs ! i) \<le> fst (segs ! j)" if "i \<le> j" "j < length segs" for i j
    using srt that by (simp add: sorted_iff_nth_mono)
  have i0: "i0 < length segs" using ne by (auto simp: i0_def)
  then have i1: "i1 < length segs" unfolding i1_def by (rule ct_forward_in_range)
  have i2le: "i2 \<le> i1" unfolding i2_def by (rule ct_backward_le)
  with i1 have i2: "i2 < length segs" by simp
  have above1: "tms < fst (segs ! j)" if "i1 < j" "j < length segs" for j
  proof -
    from that have "i1 + 1 < length segs" by simp
    then have "tms < fst (segs ! (i1 + 1))" unfolding i1_def by (rule ct_forward_stops)
    also have "\<dots> \<le> fst (segs ! j)" using that by (intro mono) simp_all
    finally show ?thesis .
  qed
  have above2: "tms < fst (segs ! j)" if "i2 < j" "j < length segs" for j
  proof (cases "i2 < i1")
    case True
    then have "tms < fst (segs ! (i2 + 1))" unfolding i2_def by (rule ct_backward_passed)
    also have "\<dots> \<le> fst (segs ! j)" using that by (intro mono) simp_all
    finally show ?thesis .
  next
    case False
    with i2le have "i2 = i1" by simp
    with that above1 show ?thesis by simp
  qed
  show "ct_index tms segs i_hint < length segs" using idx i2 by simp
  show "\<forall>j < length segs. ct_index tms segs i_hint < j \<longrightarrow> tms < fst (segs ! j)"
    using idx above2 by simp
  show "ct_index tms segs i_hint = 0 \<or> fst (segs ! ct_index tms segs i_hint) \<le> tms"
    unfolding idx i2_def by (rule ct_backward_stops)
qed

lemma ct_index_hint_free:
  assumes srt: "sorted (map fst segs)" and ne: "segs \<noteq> []"
  shows "ct_index tms segs h = ct_index tms segs h'"
proof -
  let ?a = "ct_index tms segs h" and ?b = "ct_index tms segs h'"
  have mono: "fst (segs ! i) \<le> fst (segs ! j)" if "i \<le> j" "j < length segs" for i j
    using srt that by (simp add: sorted_iff_nth_mono)
  have neq: False if lt: "x < y" and y: "y < length segs"
      and ax: "\<forall>j < length segs. x < j \<longrightarrow> tms < fst (segs ! j)"
      and by0: "y = 0 \<or> fst (segs ! y) \<le> tms" for x y
  proof -
    from lt by0 have "fst (segs ! y) \<le> tms" by auto
    moreover from ax lt y have "tms < fst (segs ! y)" by simp
    ultimately show False by simp
  qed
  show ?thesis
  proof (rule ccontr)
    assume d: "?a \<noteq> ?b"
    show False
    proof (cases "?a < ?b")
      case True
      then show False
        using neq [of ?a ?b] ct_index_props [OF srt ne, of tms h]
          ct_index_props [OF srt ne, of tms h'] by blast
    next
      case False
      with d have "?b < ?a" by simp
      then show False
        using neq [of ?b ?a] ct_index_props [OF srt ne, of tms h]
          ct_index_props [OF srt ne, of tms h'] by blast
    qed
  qed
qed

text \<open>
  Claim C8, as amended.  For a sorted non-empty list of CT segments, any timestamp and any
  hint, \<open>_ct_at\<close> returns the \<open>ct\<close> and \<open>mult\<close> of the segment at the index it returns, and
  that index does not depend on the hint.  If some segment starts at or before the timestamp,
  the returned segment starts at or before it, every later segment starts after it, and no
  segment starting at or before the timestamp starts later than the returned one.  If every
  segment starts after the timestamp, the first segment is returned.
\<close>

theorem ct_at_greatest_start:
  assumes "sorted (map fst segs)" and "segs \<noteq> []"
  shows "(\<exists>i < length segs.
            ct_at tms segs i_hint = (fst (snd (segs ! i)), snd (snd (segs ! i)), i)
            \<and> ct_at tms segs i_hint' = ct_at tms segs i_hint
            \<and> (if \<exists>j < length segs. fst (segs ! j) \<le> tms
                then fst (segs ! i) \<le> tms
                     \<and> (\<forall>j < length segs. i < j \<longrightarrow> tms < fst (segs ! j))
                     \<and> (\<forall>j < length segs. fst (segs ! j) \<le> tms
                            \<longrightarrow> fst (segs ! j) \<le> fst (segs ! i))
                else i = 0))"
proof -
  let ?i = "ct_index tms segs i_hint"
  note p = ct_index_props [OF assms, of tms i_hint]
  have mono: "fst (segs ! i) \<le> fst (segs ! j)" if "i \<le> j" "j < length segs" for i j
    using assms(1) that by (simp add: sorted_iff_nth_mono)
  have a: "ct_at tms segs i_hint = (fst (snd (segs ! ?i)), snd (snd (segs ! ?i)), ?i)"
    using assms(2) by (rule ct_at_nonempty)
  have b: "ct_at tms segs i_hint' = ct_at tms segs i_hint"
    using ct_index_hint_free [OF assms, of tms i_hint' i_hint]
    by (simp add: ct_at_nonempty [OF assms(2)])
  have c: "fst (segs ! ?i) \<le> tms" if "j < length segs" "fst (segs ! j) \<le> tms" for j
  proof (cases "?i = 0")
    case True
    then have "fst (segs ! ?i) \<le> fst (segs ! j)" using that mono [of 0 j] by simp
    with that show ?thesis by simp
  next
    case False
    with p(3) show ?thesis by simp
  qed
  have d: "fst (segs ! j) \<le> fst (segs ! ?i)" if "j < length segs" "fst (segs ! j) \<le> tms" for j
  proof (cases "j \<le> ?i")
    case True
    with p(1) show ?thesis by (intro mono)
  next
    case False
    with p(2) that show ?thesis by auto
  qed
  have e: "?i = 0" if "\<not> (\<exists>j < length segs. fst (segs ! j) \<le> tms)"
    using p(1) p(3) that by auto
  show ?thesis
    using a b c d e p(1) p(2) by (intro exI [of _ ?i]) auto
qed

theorem ct_at_greatest_start_witness:
  "sorted (map fst segs3) \<and> segs3 \<noteq> []
   \<and> ct_at 25 segs3 2 = (40, 3, 1)
   \<and> ct_at 25 segs3 (-1) = ct_at 25 segs3 2"
proof -
  have h1: "sorted (map fst segs3)" by (simp add: segs3_def)
  have h2: "segs3 \<noteq> []" by (simp add: segs3_def)
  have v: "ct_at 25 segs3 2 = (40, 3, 1)" by code_simp
  from ct_at_greatest_start [OF h1 h2, of 25 2 "-1"]
  have hf: "ct_at 25 segs3 (-1) = ct_at 25 segs3 2" by blast
  show ?thesis using h1 h2 v hf by simp
qed

text \<open>
  A timestamp before the start of the only segment: no segment has a start at or before it,
  and the lookup still returns that segment.
\<close>

theorem ct_at_before_first_counterexample:
  "sorted (map fst [(10, 30, 2 :: real) :: ct_segment])
   \<and> ct_at 5 [(10, 30, 2)] 0 = (30, 2, 0)
   \<and> \<not> fst ([(10, 30, 2 :: real) :: ct_segment] ! 0) \<le> 5"
proof -
  have "ct_at 5 [(10, 30, 2)] 0 = (30, 2, 0)" by code_simp
  then show ?thesis by simp
qed


section \<open>Overcycle classification and anchors: results\<close>

lemma ct_at_hint_free:
  assumes "sorted (map fst segs)" and "segs \<noteq> []"
  shows "\<exists>i. ct_at tms segs h = (fst (ct_at tms segs 0), fst (snd (ct_at tms segs 0)), i)"
  using ct_index_hint_free [OF assms, of tms h 0]
  by (simp add: ct_at_nonempty [OF assms(2)])

lemma oc_step_window_overs:
  assumes "sorted (map fst segs)" and "segs \<noteq> []"
  shows "\<exists>i. oc_step segs (cnt, mx, sum_over, idx) row =
           (cnt + int (length (window_overs segs [row])),
            foldl max mx (window_overs segs [row]),
            sum_over + sum_list (window_overs segs [row]), i)"
proof (cases row)
  case (Pair ts v)
  show ?thesis
  proof (cases v)
    case None
    with Pair show ?thesis by simp
  next
    case (Some act)
    obtain ct mult i0 where z: "ct_at ts segs 0 = (ct, mult, i0)"
      by (cases "ct_at ts segs 0") auto
    from ct_at_hint_free [OF assms, of ts "int idx"] z
    obtain i where h: "ct_at ts segs (int idx) = (ct, mult, i)" by auto
    show ?thesis
      using Pair Some z h
      by (auto simp: overcycle_event_def EPSILON_def Let_def max_def)
  qed
qed

lemma window_overs_append_one:
  "window_overs segs (row # rows) = window_overs segs [row] @ window_overs segs rows"
proof (cases row)
  case (Pair ts v)
  then show ?thesis by (cases v) (auto split: prod.splits)
qed

lemma foldl_oc_step_window_overs:
  assumes "sorted (map fst segs)" and "segs \<noteq> []"
  shows "\<exists>i. foldl (oc_step segs) (cnt, mx, sum_over, idx) rows =
           (cnt + int (length (window_overs segs rows)),
            foldl max mx (window_overs segs rows),
            sum_over + sum_list (window_overs segs rows), i)"
proof (induction rows arbitrary: cnt mx sum_over idx)
  case Nil
  show ?case by simp
next
  case (Cons row rows)
  from oc_step_window_overs [OF assms, of cnt mx sum_over idx row]
  obtain i where s: "oc_step segs (cnt, mx, sum_over, idx) row =
           (cnt + int (length (window_overs segs [row])),
            foldl max mx (window_overs segs [row]),
            sum_over + sum_list (window_overs segs [row]), i)" by blast
  from Cons.IH [of "cnt + int (length (window_overs segs [row]))"
      "foldl max mx (window_overs segs [row])"
      "sum_over + sum_list (window_overs segs [row])" i]
  obtain j where t: "foldl (oc_step segs)
           (cnt + int (length (window_overs segs [row])),
            foldl max mx (window_overs segs [row]),
            sum_over + sum_list (window_overs segs [row]), i) rows =
           (cnt + int (length (window_overs segs [row])) + int (length (window_overs segs rows)),
            foldl max (foldl max mx (window_overs segs [row])) (window_overs segs rows),
            sum_over + sum_list (window_overs segs [row]) + sum_list (window_overs segs rows), j)"
    by blast
  show ?case
    by (rule exI [of _ j])
      (simp add: s t window_overs_append_one [of segs row rows] del: window_overs.simps)
qed

text \<open>
  Claim C3.  With the segment \<open>(ct, mult)\<close> that the lookup gives for the sample and
  \<open>ct > 0\<close>, one pass of the scan counts the sample and adds \<open>act - ct\<close> exactly when
  \<open>ct < act \<le> ct * mult\<close>, and leaves the totals alone otherwise.  Over a whole window
  with sorted segments the count, maximum and sum of the scan are those of the overages of
  the samples so classified.  For the segment \<open>(30, 2)\<close> and the samples 29, 35, 61, 45 the
  scan gives count 2, sum 20 and maximum 15.
\<close>

theorem overcycle_classification:
  "(ct_at ts segs (int idx) = (ct, mult, idx') \<and> 0 < ct \<longrightarrow>
      oc_step segs (cnt, mx, sum_over, idx) (ts, Some act) =
        (if ct < act \<and> act \<le> ct * mult
         then (cnt + 1, max mx (act - ct), sum_over + (act - ct), idx')
         else (cnt, mx, sum_over, idx')))
   \<and> (sorted (map fst segs) \<and> segs \<noteq> [] \<longrightarrow>
        (\<exists>i. oc_scan segs (Some rows) =
           (int (length (window_overs segs rows)),
            foldl max 0 (window_overs segs rows),
            sum_list (window_overs segs rows), i)))
   \<and> oc_scan (ct_segments rows_30_2) (Some samples_scenario6) = (2, 15, 20, 0)"
proof -
  have a: "ct_at ts segs (int idx) = (ct, mult, idx') \<and> 0 < ct \<longrightarrow>
      oc_step segs (cnt, mx, sum_over, idx) (ts, Some act) =
        (if ct < act \<and> act \<le> ct * mult
         then (cnt + 1, max mx (act - ct), sum_over + (act - ct), idx')
         else (cnt, mx, sum_over, idx'))"
    by (auto simp: EPSILON_def Let_def max_def)
  have b: "sorted (map fst segs) \<and> segs \<noteq> [] \<longrightarrow>
        (\<exists>i. oc_scan segs (Some rows) =
           (int (length (window_overs segs rows)),
            foldl max 0 (window_overs segs rows),
            sum_list (window_overs segs rows), i))"
    using foldl_oc_step_window_overs [of segs 0 0 0 0 rows]
    by (auto simp: oc_scan_def)
  have c: "oc_scan (ct_segments rows_30_2) (Some samples_scenario6) = (2, 15, 20, 0)"
    by code_simp
  from a b c show ?thesis by blast
qed

theorem overcycle_classification_witness:
  "ct_at 36301000 seg_30_2 0 = (30, 2, 0) \<and> (0::real) < 30
   \<and> sorted (map fst seg_30_2) \<and> seg_30_2 \<noteq> []
   \<and> oc_step seg_30_2 (0, 0, 0, 0) (36301000, Some 35) = (1, 5, 5, 0)
   \<and> oc_step seg_30_2 (1, 5, 5, 0) (36302000, Some 61) = (1, 5, 5, 0)
   \<and> window_overs seg_30_2 samples_scenario6 = [5, 15]
   \<and> (\<exists>i. oc_scan seg_30_2 (Some samples_scenario6) = (2, 15, 20, i))"
proof -
  have h1: "ct_at 36301000 seg_30_2 (int 0) = (30, 2, 0) \<and> (0::real) < 30" by code_simp
  have h2: "ct_at 36302000 seg_30_2 (int 0) = (30, 2, 0) \<and> (0::real) < 30" by code_simp
  have h3: "sorted (map fst seg_30_2) \<and> seg_30_2 \<noteq> []" by (simp add: seg_30_2_def)
  have w: "window_overs seg_30_2 samples_scenario6 = [5, 15]" by code_simp
  note t1 = overcycle_classification
    [where segs = seg_30_2 and ts = 36301000 and idx = 0 and ct = 30 and mult = 2
       and idx' = 0 and cnt = 0 and mx = 0 and sum_over = 0 and act = 35
       and rows = samples_scenario6]
  note t2 = overcycle_classification
    [where segs = seg_30_2 and ts = 36302000 and idx = 0 and ct = 30 and mult = 2
       and idx' = 0 and cnt = 1 and mx = 5 and sum_over = 5 and act = 61
       and rows = samples_scenario6]
  have s1: "oc_step seg_30_2 (0, 0, 0, 0) (36301000, Some 35) = (1, 5, 5, 0)"
    using t1 h1 by simp
  have s2: "oc_step seg_30_2 (1, 5, 5, 0) (36302000, Some 61) = (1, 5, 5, 0)"
    using t2 h2 by simp
  have s3: "\<exists>i. oc_scan seg_30_2 (Some samples_scenario6) = (2, 15, 20, i)"
    using t1 h3 w by simp
  from h1 h3 s1 s2 s3 w show ?thesis by simp
qed


section \<open>Cumulative anchor rows: results\<close>

lemma py_round_nonneg: "0 \<le> x \<Longrightarrow> 0 \<le> py_round x"
  by (simp add: py_round_def)

lemma py_round_mono_nonneg: "0 \<le> x \<Longrightarrow> x \<le> y \<Longrightarrow> py_round x \<le> py_round y"
  by (simp add: py_round_def floor_mono)

lemma py_round3_zero: "py_round3 0 = 0"
  by (simp add: py_round3_def py_round_def)

lemma py_round3_nonneg: "0 \<le> x \<Longrightarrow> 0 \<le> py_round3 x"
  by (simp add: py_round3_def py_round_nonneg)

lemma py_round3_mono_nonneg: "0 \<le> x \<Longrightarrow> x \<le> y \<Longrightarrow> py_round3 x \<le> py_round3 y"
  by (simp add: py_round3_def py_round_mono_nonneg divide_right_mono)

lemma oc_step_inv: "oc_inv t \<Longrightarrow> oc_inv (oc_step segs t row)"
proof -
  assume i: "oc_inv t"
  obtain cnt mx sum_over idx where t: "t = (cnt, mx, sum_over, idx)"
    by (cases t) auto
  obtain ts v where r: "row = (ts, v)" by (cases row) auto
  show ?thesis
  proof (cases v)
    case None
    with i t r show ?thesis by simp
  next
    case (Some act)
    obtain ct mult i' where c: "ct_at ts segs (int idx) = (ct, mult, i')"
      by (cases "ct_at ts segs (int idx)") auto
    from i t have "0 \<le> cnt" "0 \<le> mx" "mx \<le> sum_over" by (simp_all add: oc_inv_def)
    then show ?thesis
      using i t r Some c by (auto simp: oc_inv_def Let_def EPSILON_def)
  qed
qed

lemma foldl_oc_step_inv: "oc_inv t \<Longrightarrow> oc_inv (foldl (oc_step segs) t rows)"
  by (induction rows arbitrary: t) (simp_all add: oc_step_inv)

lemma oc_scan_inv: "oc_inv (oc_scan segs ds)"
proof -
  have z: "oc_inv (0, 0, 0, 0)" by (simp add: oc_inv_def)
  show ?thesis
    using z foldl_oc_step_inv [OF z, of segs]
    by (simp add: oc_scan_def split: option.splits)
qed

lemma station_delta_rows_inv:
  assumes "r \<in> set (station_delta_rows env shift_id shift_date shift_start a b shift_end
                       include_zero_for st)"
  shows "0 \<le> inc_over_cnt r \<and> 0 \<le> inc_over_sec r \<and> 0 \<le> inc_max_over_sec r
         \<and> inc_max_over_sec r \<le> inc_over_sec r
         \<and> (inc_over_cnt r = 0 \<longrightarrow> inc_over_sec r = 0 \<and> inc_max_over_sec r = 0)"
proof -
  let ?t = "oc_scan (ct_segments (ct_rows env (st_station_id st) a b))
              (ct_history env (st_station_id st) a b)"
  obtain cnt mx sum_over idx where t: "?t = (cnt, mx, sum_over, idx)"
    by (cases ?t) auto
  have "oc_inv ?t" by (rule oc_scan_inv)
  with t have i: "0 \<le> cnt" "0 \<le> mx" "mx \<le> sum_over" "cnt = 0 \<longrightarrow> sum_over = 0 \<and> mx = 0"
    by (simp_all add: oc_inv_def)
  from i have s: "0 \<le> sum_over" by simp
  from assms t have r: "inc_over_cnt r = cnt" "inc_over_sec r = py_round3 sum_over"
    "inc_max_over_sec r = py_round3 mx"
    by (auto simp: station_delta_rows_def Let_def split: if_splits)
  show ?thesis
    using i s r py_round3_nonneg [of sum_over] py_round3_nonneg [of mx]
      py_round3_mono_nonneg [of mx sum_over] py_round3_zero
    by auto
qed

text \<open>
  Claim C10.  Every cumulative anchor row that \<open>_compute_deltas_for_line\<close> returns has a
  count, a summed overage and a largest overage that are not negative, the largest overage is
  at most the summed one, and a row with count 0 (a seeded zero row) has all three equal
  to 0.
\<close>

theorem anchor_row_invariant:
  "\<forall>r \<in> set (compute_deltas_for_line env stations_on_line shift_id shift_date shift_start
                 a b shift_end include_zero_for).
     0 \<le> inc_over_cnt r \<and> 0 \<le> inc_over_sec r \<and> 0 \<le> inc_max_over_sec r
     \<and> inc_max_over_sec r \<le> inc_over_sec r
     \<and> (inc_over_cnt r = 0 \<longrightarrow> inc_over_sec r = 0 \<and> inc_max_over_sec r = 0)"
  unfolding compute_deltas_for_line_def
  using station_delta_rows_inv by fastforce

theorem anchor_row_invariant_witness:
  "map (\<lambda>r. (row_station_id r, inc_over_cnt r, inc_over_sec r, inc_max_over_sec r))
     (compute_deltas_for_line reads_scenario6 line_scenario6 1 ''2025-06-22'' 21600000
        36000000 36900000 50400000 {})
     = [(1, 2, 20, 15), (2, 0, 0, 0)]
   \<and> inc_max_over_sec (hd (compute_deltas_for_line reads_scenario6 line_scenario6 1
        ''2025-06-22'' 21600000 36000000 36900000 50400000 {}))
      \<le> inc_over_sec (hd (compute_deltas_for_line reads_scenario6 line_scenario6 1
        ''2025-06-22'' 21600000 36000000 36900000 50400000 {}))
   \<and> inc_over_cnt (last (compute_deltas_for_line reads_scenario6 line_scenario6 1
        ''2025-06-22'' 21600000 36000000 36900000 50400000 {})) = 0
   \<and> inc_over_sec (last (compute_deltas_for_line reads_scenario6 line_scenario6 1
        ''2025-06-22'' 21600000 36000000 36900000 50400000 {})) = 0"
proof -
  let ?C = "compute_deltas_for_line reads_scenario6 line_scenario6 1 ''2025-06-22'' 21600000
        36000000 36900000 50400000 {}"
  have v: "map (\<lambda>r. (row_station_id r, inc_over_cnt r, inc_over_sec r, inc_max_over_sec r)) ?C
     = [(1, 2, 20, 15), (2, 0, 0, 0)]"
    by code_simp
  then have ne: "?C \<noteq> []" by auto
  then have m: "hd ?C \<in> set ?C" "last ?C \<in> set ?C" by simp_all
  have c0: "inc_over_cnt (last ?C) = 0"
    by code_simp
  note inv = anchor_row_invariant [of reads_scenario6 line_scenario6 1 "''2025-06-22''"
      21600000 36000000 36900000 50400000 "{}"]
  from inv m(1) have a: "inc_max_over_sec (hd ?C) \<le> inc_over_sec (hd ?C)" by blast
  from inv m(2) c0 have b: "inc_over_sec (last ?C) = 0" by blast
  from v a b c0 show ?thesis by simp
qed


section \<open>Effective CT: results\<close>

lemma filter_positive_id:
  "\<forall>c \<in> set cts. 0 < c \<Longrightarrow> filter (\<lambda>ct. ct \<noteq> 0 \<and> ct > 0) cts = (cts :: real list)"
  by (induction cts) auto

lemma clamp01_max_min: "max 0 (min 1 x) = clamp01 x"
  by (simp add: clamp01_def max_def min_def)

text \<open>
  Claim C4.  For a list of \<open>k\<close> positive per-fixture cycle times and a parallelism factor
  \<open>lam\<close>, which the function clamps to \<open>[0, 1]\<close>, the effective CT is 0 for the empty list,
  the single value for \<open>k = 1\<close>, and \<open>(1 - lam) * mean + lam * (max / k)\<close> for \<open>k \<ge> 2\<close>;
  for the cycle times 30 and 50 with \<open>lam = 0.5\<close> it is 32.5.
\<close>

theorem ct_eff_from_cts_blend:
  "ct_eff_from_cts [] fps (Some lam) = 0
   \<and> (0 < c \<longrightarrow> ct_eff_from_cts [c] fps (Some lam) = c)
   \<and> ((\<forall>c \<in> set cts. 0 < c) \<and> 2 \<le> length cts \<longrightarrow>
        ct_eff_from_cts cts fps (Some lam) = ct_blend_spec cts (clamp01 lam)
        \<and> (0 \<le> lam \<and> lam \<le> 1 \<longrightarrow>
             ct_eff_from_cts cts fps (Some lam)
               = (1 - lam) * (sum_list cts / real (length cts))
                 + lam * (Max (set cts) / real (length cts))))
   \<and> ct_eff_from_cts [30, 50] 2 (Some (1 / 2)) = 65 / 2"
proof -
  have a: "ct_eff_from_cts [] fps (Some lam) = 0"
    by (simp add: ct_eff_from_cts_def)
  have b: "0 < c \<longrightarrow> ct_eff_from_cts [c] fps (Some lam) = c"
    by (simp add: ct_eff_from_cts_def)
  have c: "ct_eff_from_cts cts fps (Some lam) = ct_blend_spec cts (clamp01 lam)"
    if "\<forall>c \<in> set cts. 0 < c" "2 \<le> length cts"
  proof -
    from that(2) have "cts \<noteq> []" "length cts \<noteq> 1" by auto
    then show ?thesis
      by (simp add: ct_eff_from_cts_def filter_positive_id [OF that(1)] Let_def
          clamp01_max_min ct_blend_spec_def)
  qed
  have d: "clamp01 lam = lam" if "0 \<le> lam" "lam \<le> 1"
    using that by (simp add: clamp01_def)
  have e: "ct_eff_from_cts [30, 50] 2 (Some (1 / 2)) = 65 / 2"
    by (simp add: ct_eff_from_cts_def Let_def)
  from a b c d e show ?thesis by (simp add: ct_blend_spec_def)
qed

theorem ct_eff_from_cts_blend_witness:
  "(0::real) < 45 \<and> ct_eff_from_cts [45] 1 (Some (1 / 4)) = 45
   \<and> (0::real) < 30 \<and> (0::real) < 50 \<and> (0::real) < 40 \<and> 2 \<le> length [30, 50, 40 :: real]
   \<and> (0::real) \<le> 1 / 4 \<and> (1 / 4 :: real) \<le> 1
   \<and> ct_eff_from_cts [30, 50, 40] 3 (Some (1 / 4)) = 205 / 6
   \<and> ct_eff_from_cts [30, 50, 40] 3 (Some 7) = 50 / 3"
proof -
  have h: "(\<forall>c \<in> set [30, 50, 40 :: real]. 0 < c) \<and> 2 \<le> length [30, 50, 40 :: real]"
    by simp
  have m: "Max (set [30, 50, 40 :: real]) = 50" by simp
  have c7: "clamp01 7 = 1" by (simp add: clamp01_def)
  note t1 = ct_eff_from_cts_blend [where c = 45 and fps = 1 and lam = "1 / 4"
      and cts = "[30, 50, 40]"]
  note t2 = ct_eff_from_cts_blend [where c = 45 and fps = 3 and lam = "1 / 4"
      and cts = "[30, 50, 40]"]
  note t3 = ct_eff_from_cts_blend [where c = 45 and fps = 3 and lam = 7
      and cts = "[30, 50, 40]"]
  have v1: "ct_eff_from_cts [45] 1 (Some (1 / 4)) = 45" using t1 by simp
  have v2: "ct_eff_from_cts [30, 50, 40] 3 (Some (1 / 4)) = 205 / 6"
    using t2 h m by simp
  have v3: "ct_eff_from_cts [30, 50, 40] 3 (Some 7) = 50 / 3"
    using t3 h m c7 by (simp add: ct_blend_spec_def)
  from h v1 v2 v3 show ?thesis by simp
qed


section \<open>Debounce: results\<close>

text \<open>
  Claim C6, as amended.  With \<open>DEBOUNCE_TICKS = 1\<close> a tick that observes a configured,
  non-empty parts set commits the effective CT of that parts set at once, whether or not the
  set was seen on the tick before (a changed set puts \<open>stable_ticks\<close> at 1, which already
  reaches \<open>DEBOUNCE_TICKS\<close>); \<open>stable_ticks\<close> stays within 0 and 1.  A parts set with missing
  configuration takes effect at once as well: the committed CT is 0 and a changed set puts
  \<open>stable_ticks\<close> at \<open>DEBOUNCE_TICKS\<close>.
\<close>

theorem debounce_default_immediate:
  "(0 \<le> stable_ticks s \<and> parts_used p \<noteq> [] \<and> \<not> is_missing_cfg p \<longrightarrow>
      ct_eff (debounce_tick fps lam p s) = ct_eff_from_cts (ct_list p) fps (Some lam)
      \<and> stable_ticks (debounce_tick fps lam p s) = 1
      \<and> last_parts_key (debounce_tick fps lam p s) = Some (py_join ''|'' (parts_used p)))
   \<and> (is_missing_cfg p \<longrightarrow>
        ct_eff (debounce_tick fps lam p s) = 0
        \<and> (last_parts_key s \<noteq> last_parts_key (debounce_tick fps lam p s) \<longrightarrow>
             stable_ticks (debounce_tick fps lam p s) = DEBOUNCE_TICKS))
   \<and> (0 \<le> stable_ticks s \<and> stable_ticks s \<le> 1 \<longrightarrow>
        0 \<le> stable_ticks (debounce_tick fps lam p s)
        \<and> stable_ticks (debounce_tick fps lam p s) \<le> 1)"
  by (auto simp: debounce_tick_def DEBOUNCE_TICKS_def Let_def min_def)

theorem debounce_default_immediate_witness:
  "0 \<le> stable_ticks state_part_A \<and> parts_used snapshot_part_B \<noteq> []
   \<and> \<not> is_missing_cfg snapshot_part_B
   \<and> last_parts_key state_part_A \<noteq> Some (py_join ''|'' (parts_used snapshot_part_B))
   \<and> ct_eff state_part_A = 30
   \<and> ct_eff (debounce_tick 1 0 snapshot_part_B state_part_A) = 50
   \<and> is_missing_cfg snapshot_unknown_part
   \<and> ct_eff (debounce_tick 1 0 snapshot_unknown_part state_part_A) = 0
   \<and> stable_ticks (debounce_tick 1 0 snapshot_unknown_part state_part_A) = DEBOUNCE_TICKS"
proof -
  note t1 = debounce_default_immediate
    [where s = state_part_A and p = snapshot_part_B and fps = 1 and lam = 0]
  note t2 = debounce_default_immediate
    [where s = state_part_A and p = snapshot_unknown_part and fps = 1 and lam = 0]
  have h1: "0 \<le> stable_ticks state_part_A \<and> parts_used snapshot_part_B \<noteq> []
     \<and> \<not> is_missing_cfg snapshot_part_B"
    by (simp add: state_part_A_def snapshot_part_B_def)
  have k: "last_parts_key state_part_A \<noteq> Some (py_join ''|'' (parts_used snapshot_part_B))"
    "ct_eff state_part_A = 30"
    by (simp_all add: state_part_A_def snapshot_part_B_def)
  have e: "ct_eff_from_cts (ct_list snapshot_part_B) 1 (Some 0) = 50"
    by (simp add: snapshot_part_B_def ct_eff_from_cts_def)
  have v1: "ct_eff (debounce_tick 1 0 snapshot_part_B state_part_A) = 50"
    using t1 h1 e by simp
  have h2: "is_missing_cfg snapshot_unknown_part" by (simp add: snapshot_unknown_part_def)
  have ch: "last_parts_key state_part_A
      \<noteq> last_parts_key (debounce_tick 1 0 snapshot_unknown_part state_part_A)"
    by (simp add: debounce_tick_def state_part_A_def snapshot_unknown_part_def Let_def)
  have v2: "ct_eff (debounce_tick 1 0 snapshot_unknown_part state_part_A) = 0"
    "stable_ticks (debounce_tick 1 0 snapshot_unknown_part state_part_A) = DEBOUNCE_TICKS"
    using t2 h2 ch by simp_all
  from h1 k v1 h2 v2 show ?thesis by simp
qed

text \<open>
  The station runs part A with CT 30; on the first tick that shows part B (the set was not
  seen on the tick before) the committed CT is already that of B.
\<close>

theorem debounce_first_tick_counterexample:
  "last_parts_key state_part_A = Some ''A''
   \<and> py_join ''|'' (parts_used snapshot_part_B) = ''B''
   \<and> ct_eff state_part_A = 30
   \<and> ct_eff (debounce_tick 1 0 snapshot_part_B state_part_A) = 50"
  by (simp add: debounce_tick_def DEBOUNCE_TICKS_def state_part_A_def snapshot_part_B_def
      ct_eff_from_cts_def Let_def)


section \<open>Leaderboards: results\<close>

lemma py_sorted_reverse_length: "length (py_sorted_reverse key xs) = length xs"
  by (simp add: py_sorted_reverse_def)

lemma py_sorted_reverse_desc:
  assumes "i < j" and "j < length xs"
  shows "key (py_sorted_reverse key xs ! j) \<le> key (py_sorted_reverse key xs ! i)"
proof -
  let ?S = "sort_key key (rev xs)"
  have len: "length ?S = length xs" by simp
  have srt: "sorted (map key ?S)" by (rule sorted_sort_key)
  have j: "rev ?S ! j = ?S ! (length xs - Suc j)"
    using assms len by (simp add: rev_nth)
  have i: "rev ?S ! i = ?S ! (length xs - Suc i)"
    using assms len by (simp add: rev_nth)
  have "map key ?S ! (length xs - Suc j) \<le> map key ?S ! (length xs - Suc i)"
    using assms len by (intro sorted_nth_mono [OF srt]) simp_all
  then have "key (?S ! (length xs - Suc j)) \<le> key (?S ! (length xs - Suc i))"
    using assms len by simp
  then show ?thesis by (simp add: py_sorted_reverse_def i j)
qed

lemma py_sorted_reverse_stable:
  "filter (\<lambda>x. key x = k) (py_sorted_reverse key xs) = filter (\<lambda>x. key x = k) xs"
proof -
  have "filter (\<lambda>x. key x = k) (rev (sort_key key (rev xs)))
          = rev (filter (\<lambda>x. key x = k) (sort_key key (rev xs)))"
    by (simp add: rev_filter)
  also have "\<dots> = rev (filter (\<lambda>x. key x = k) (rev xs))"
    by (simp only: sort_key_stable)
  also have "\<dots> = filter (\<lambda>x. key x = k) xs"
    by (simp add: rev_filter [symmetric])
  finally show ?thesis by (simp add: py_sorted_reverse_def)
qed

lemma filter_take_prefix: "\<exists>n. filter P (take m xs) = take n (filter P xs)"
proof (induction xs arbitrary: m)
  case Nil
  show ?case by simp
next
  case (Cons x xs)
  show ?case
  proof (cases m)
    case 0
    then show ?thesis by (intro exI [of _ 0]) simp
  next
    case (Suc m')
    from Cons.IH [of m'] obtain n where n: "filter P (take m' xs) = take n (filter P xs)" ..
    show ?thesis
    proof (cases "P x")
      case True
      with Suc n show ?thesis by (intro exI [of _ "Suc n"]) simp
    next
      case False
      with Suc n show ?thesis by (intro exI [of _ n]) simp
    qed
  qed
qed

lemma map_enumerate_nth:
  "map (\<lambda>(i, r). f i r) (enumerate 0 xs) = map (\<lambda>i. f i (xs ! i)) [0..<length xs]"
  by (rule nth_equalityI) (simp_all add: nth_enumerate_eq)

lemma show_nat_digit: "n < 10 \<Longrightarrow> show_nat n = [digit_char n]"
  by (subst show_nat.simps) simp

lemma show_nat_two_digits:
  "10 \<le> n \<Longrightarrow> n < 100 \<Longrightarrow> show_nat n = [digit_char (n div 10), digit_char (n mod 10)]"
  by (subst show_nat.simps) (simp add: show_nat_digit)

lemma fmt_02d_two_digits:
  assumes "0 \<le> i" and "i < 60"
  shows "fmt_02d i = [digit_char (nat i div 10), digit_char (nat i mod 10)]"
proof (cases "nat i < 10")
  case True
  then have "show_nat (nat i) = [digit_char (nat i)]" by (rule show_nat_digit)
  moreover have "digit_char 0 = CHR ''0''" by (simp add: digit_char_def)
  ultimately show ?thesis using True assms by (simp add: fmt_02d_def fmt_d_def)
next
  case False
  with assms have "10 \<le> nat i" "nat i < 100" by simp_all
  then have "show_nat (nat i) = [digit_char (nat i div 10), digit_char (nat i mod 10)]"
    by (rule show_nat_two_digits)
  then show ?thesis using assms by (simp add: fmt_02d_def fmt_d_def)
qed

lemma fmt_mmss_shape:
  "fmt_mmss sec =
     show_nat (nat (py_int (max 0 (py_round sec)) div 60)) @ '':'' @
       [digit_char (nat (py_int (max 0 (py_round sec)) mod 60) div 10),
        digit_char (nat (py_int (max 0 (py_round sec)) mod 60) mod 10)]"
proof -
  let ?s = "py_int (max 0 (py_round sec))"
  have s: "0 \<le> ?s" by (simp add: py_int_def)
  then have d: "0 \<le> ?s div 60" by simp
  have m: "0 \<le> ?s mod 60" "?s mod 60 < 60" by simp_all
  show ?thesis
    using d by (simp add: fmt_mmss_def Let_def fmt_02d_two_digits [OF m] fmt_d_def)
qed

lemma top_tim_desc:
  assumes "i < j" and "j < length (top_tim acc)"
  shows "acc_sum_over (top_tim acc ! j) < acc_sum_over (top_tim acc ! i)
         \<or> (acc_sum_over (top_tim acc ! j) = acc_sum_over (top_tim acc ! i)
            \<and> acc_sum_cnt (top_tim acc ! j) \<le> acc_sum_cnt (top_tim acc ! i))"
proof -
  let ?key = "\<lambda>x. (acc_sum_over x, acc_sum_cnt x)"
  from assms have ne: "acc \<noteq> []" by (auto simp: top_tim_def split: if_splits)
  with assms have j: "j < MAX_TOP" "j < length acc"
    by (simp_all add: top_tim_def py_sorted_reverse_length)
  with assms have i: "i < MAX_TOP" by simp
  have "?key (py_sorted_reverse ?key acc ! j) \<le> ?key (py_sorted_reverse ?key acc ! i)"
    using assms(1) j(2) by (rule py_sorted_reverse_desc)
  then have "?key (top_tim acc ! j) \<le> ?key (top_tim acc ! i)"
    using ne i j by (simp add: top_tim_def)
  then show ?thesis by (auto simp: less_eq_prod_def)
qed

lemma top_tot_desc:
  assumes "i < j" and "j < length (top_tot acc)"
  shows "acc_sum_cnt (top_tot acc ! j) < acc_sum_cnt (top_tot acc ! i)
         \<or> (acc_sum_cnt (top_tot acc ! j) = acc_sum_cnt (top_tot acc ! i)
            \<and> acc_sum_over (top_tot acc ! j) \<le> acc_sum_over (top_tot acc ! i))"
proof -
  let ?key = "\<lambda>x. (acc_sum_cnt x, acc_sum_over x)"
  from assms have ne: "acc \<noteq> []" by (auto simp: top_tot_def split: if_splits)
  with assms have j: "j < MAX_TOP" "j < length acc"
    by (simp_all add: top_tot_def py_sorted_reverse_length)
  with assms have i: "i < MAX_TOP" by simp
  have "?key (py_sorted_reverse ?key acc ! j) \<le> ?key (py_sorted_reverse ?key acc ! i)"
    using assms(1) j(2) by (rule py_sorted_reverse_desc)
  then have "?key (top_tot acc ! j) \<le> ?key (top_tot acc ! i)"
    using ne i j by (simp add: top_tot_def)
  then show ?thesis by (auto simp: less_eq_prod_def)
qed

lemma top_tim_ties:
  "\<exists>n. filter (\<lambda>x. acc_sum_over x = v \<and> acc_sum_cnt x = c) (top_tim acc)
         = take n (filter (\<lambda>x. acc_sum_over x = v \<and> acc_sum_cnt x = c) acc)"
proof (cases "acc = []")
  case True
  then show ?thesis by (simp add: top_tim_def)
next
  case False
  let ?key = "\<lambda>x. (acc_sum_over x, acc_sum_cnt x)"
  let ?P = "\<lambda>x. ?key x = (v, c)"
  from filter_take_prefix [of ?P MAX_TOP "py_sorted_reverse ?key acc"]
  obtain n where "filter ?P (take MAX_TOP (py_sorted_reverse ?key acc))
      = take n (filter ?P (py_sorted_reverse ?key acc))" ..
  then have "filter ?P (top_tim acc) = take n (filter ?P acc)"
    using False by (simp only: top_tim_def py_sorted_reverse_stable if_True simp_thms)
  then show ?thesis by (intro exI [of _ n]) simp
qed

lemma top_tot_ties:
  "\<exists>n. filter (\<lambda>x. acc_sum_cnt x = c \<and> acc_sum_over x = v) (top_tot acc)
         = take n (filter (\<lambda>x. acc_sum_cnt x = c \<and> acc_sum_over x = v) acc)"
proof (cases "acc = []")
  case True
  then show ?thesis by (simp add: top_tot_def)
next
  case False
  let ?key = "\<lambda>x. (acc_sum_cnt x, acc_sum_over x)"
  let ?P = "\<lambda>x. ?key x = (c, v)"
  from filter_take_prefix [of ?P MAX_TOP "py_sorted_reverse ?key acc"]
  obtain n where "filter ?P (take MAX_TOP (py_sorted_reverse ?key acc))
      = take n (filter ?P (py_sorted_reverse ?key acc))" ..
  then have "filter ?P (top_tot acc) = take n (filter ?P acc)"
    using False by (simp only: top_tot_def py_sorted_reverse_stable if_True simp_thms)
  then show ?thesis by (intro exI [of _ n]) simp
qed

text \<open>
  Claim C5, as amended.  The \<open>TopOvercycleTimes\<close> leaderboard lists at most 5 stations in
  descending order of \<open>(sum_over, cnt)\<close>; stations that tie on both keep the order in which
  the store returned their accumulator rows (the sort is stable and does not look at the
  station id).  Its entries carry the IDs 1, 2, \<dots> and the value \<open>m:ss\<close>: the minutes of the
  rounded, non-negative seconds, a colon and two digits of seconds.  \<open>TopOvercycleTotals\<close>
  lists at most 5 stations in descending order of \<open>(cnt, sum_over)\<close>, ties likewise, with the
  integer count as value.
\<close>

theorem leaderboard_order:
  "length (top_tim acc) \<le> 5
   \<and> (\<forall>i j. i < j \<and> j < length (top_tim acc) \<longrightarrow>
         acc_sum_over (top_tim acc ! j) < acc_sum_over (top_tim acc ! i)
         \<or> (acc_sum_over (top_tim acc ! j) = acc_sum_over (top_tim acc ! i)
            \<and> acc_sum_cnt (top_tim acc ! j) \<le> acc_sum_cnt (top_tim acc ! i)))
   \<and> (\<forall>v c. \<exists>n. filter (\<lambda>x. acc_sum_over x = v \<and> acc_sum_cnt x = c) (top_tim acc)
                 = take n (filter (\<lambda>x. acc_sum_over x = v \<and> acc_sum_cnt x = c) acc))
   \<and> overcycles_times H acc =
        map (\<lambda>i. (int i + 1, station_name H (acc_sid (top_tim acc ! i)),
                   fmt_mmss (acc_sum_over (top_tim acc ! i))))
          [0..<length (top_tim acc)]
   \<and> fmt_mmss sec =
        show_nat (nat (py_int (max 0 (py_round sec)) div 60)) @ '':'' @
          [digit_char (nat (py_int (max 0 (py_round sec)) mod 60) div 10),
           digit_char (nat (py_int (max 0 (py_round sec)) mod 60) mod 10)]
   \<and> length (top_tot acc) \<le> 5
   \<and> (\<forall>i j. i < j \<and> j < length (top_tot acc) \<longrightarrow>
         acc_sum_cnt (top_tot acc ! j) < acc_sum_cnt (top_tot acc ! i)
         \<or> (acc_sum_cnt (top_tot acc ! j) = acc_sum_cnt (top_tot acc ! i)
            \<and> acc_sum_over (top_tot acc ! j) \<le> acc_sum_over (top_tot acc ! i)))
   \<and> (\<forall>v c. \<exists>n. filter (\<lambda>x. acc_sum_cnt x = c \<and> acc_sum_over x = v) (top_tot acc)
                 = take n (filter (\<lambda>x. acc_sum_cnt x = c \<and> acc_sum_over x = v) acc))
   \<and> overcycles_totals H acc =
        map (\<lambda>i. (int i + 1, station_name H (acc_sid (top_tot acc ! i)),
                   acc_sum_cnt (top_tot acc ! i)))
          [0..<length (top_tot acc)]"
proof -
  have a: "length (top_tim acc) \<le> 5" "length (top_tot acc) \<le> 5"
    by (simp_all add: top_tim_def top_tot_def MAX_TOP_def)
  have b: "overcycles_times H acc =
        map (\<lambda>i. (int i + 1, station_name H (acc_sid (top_tim acc ! i)),
                   fmt_mmss (acc_sum_over (top_tim acc ! i))))
          [0..<length (top_tim acc)]"
    unfolding overcycles_times_def by (rule map_enumerate_nth)
  have c: "overcycles_totals H acc =
        map (\<lambda>i. (int i + 1, station_name H (acc_sid (top_tot acc ! i)),
                   acc_sum_cnt (top_tot acc ! i)))
          [0..<length (top_tot acc)]"
    unfolding overcycles_totals_def by (rule map_enumerate_nth)
  show ?thesis
    using a b c top_tim_desc [of _ _ acc] top_tot_desc [of _ _ acc]
      top_tim_ties [of _ _ acc] top_tot_ties [of _ _ acc] fmt_mmss_shape [of sec]
    by (intro conjI allI impI) (blast | assumption)+
qed

theorem leaderboard_order_witness:
  "(3::nat) < 4 \<and> 4 < length (top_tim acc_seven)
   \<and> map acc_sid (top_tim acc_seven) = [5, 2, 7, 4, 1]
   \<and> acc_sum_over (top_tim acc_seven ! 4) = acc_sum_over (top_tim acc_seven ! 3)
   \<and> acc_sum_cnt (top_tim acc_seven ! 4) \<le> acc_sum_cnt (top_tim acc_seven ! 3)
   \<and> overcycles_times Map.empty acc_seven =
        [(1, ''Station_5'', ''61:40''), (2, ''Station_2'', ''2:05''),
         (3, ''Station_7'', ''1:01''), (4, ''Station_4'', ''0:20''),
         (5, ''Station_1'', ''0:20'')]
   \<and> (1::nat) < 2 \<and> 2 < length (top_tot acc_seven)
   \<and> acc_sum_cnt (top_tot acc_seven ! 2) < acc_sum_cnt (top_tot acc_seven ! 1)
   \<and> overcycles_totals Map.empty acc_seven =
        [(1, ''Station_5'', 9), (2, ''Station_7'', 9), (3, ''Station_2'', 4),
         (4, ''Station_4'', 3), (5, ''Station_1'', 2)]"
proof -
  note t = leaderboard_order [where acc = acc_seven and H = Map.empty and sec = 0]
  have l: "4 < length (top_tim acc_seven)" "2 < length (top_tot acc_seven)"
    by code_simp+
  have v: "map acc_sid (top_tim acc_seven) = [5, 2, 7, 4, 1]"
    "overcycles_times Map.empty acc_seven =
        [(1, ''Station_5'', ''61:40''), (2, ''Station_2'', ''2:05''),
         (3, ''Station_7'', ''1:01''), (4, ''Station_4'', ''0:20''),
         (5, ''Station_1'', ''0:20'')]"
    "overcycles_totals Map.empty acc_seven =
        [(1, ''Station_5'', 9), (2, ''Station_7'', 9), (3, ''Station_2'', 4),
         (4, ''Station_4'', 3), (5, ''Station_1'', 2)]"
    by code_simp+
  have e: "acc_sum_over (top_tim acc_seven ! 4) = acc_sum_over (top_tim acc_seven ! 3)"
    "\<not> acc_sum_cnt (top_tot acc_seven ! 2) = acc_sum_cnt (top_tot acc_seven ! 1)"
    by code_simp+
  from t l(1) have "acc_sum_over (top_tim acc_seven ! 4) < acc_sum_over (top_tim acc_seven ! 3)
         \<or> (acc_sum_over (top_tim acc_seven ! 4) = acc_sum_over (top_tim acc_seven ! 3)
            \<and> acc_sum_cnt (top_tim acc_seven ! 4) \<le> acc_sum_cnt (top_tim acc_seven ! 3))"
    by (elim conjE) (drule spec [of _ 3], drule spec [of _ 4], simp)
  with e(1) have o1: "acc_sum_cnt (top_tim acc_seven ! 4) \<le> acc_sum_cnt (top_tim acc_seven ! 3)"
    by simp
  from t l(2) have "acc_sum_cnt (top_tot acc_seven ! 2) < acc_sum_cnt (top_tot acc_seven ! 1)
         \<or> (acc_sum_cnt (top_tot acc_seven ! 2) = acc_sum_cnt (top_tot acc_seven ! 1)
            \<and> acc_sum_over (top_tot acc_seven ! 2) \<le> acc_sum_over (top_tot acc_seven ! 1))"
    by (elim conjE) (drule spec [of _ 1], drule spec [of _ 2], simp)
  with e(2) have o2: "acc_sum_cnt (top_tot acc_seven ! 2) < acc_sum_cnt (top_tot acc_seven ! 1)"
    by simp
  from l v e(1) o1 o2 show ?thesis by simp
qed

text \<open>
  Stations 2 and 1 tie on summed overage and count; the store returned station 2 first, and
  the leaderboard lists station 2 before station 1.
\<close>

theorem leaderboard_tie_counterexample:
  "map acc_sid (top_tim acc_tie) = [2, 1]
   \<and> acc_sum_over (top_tim acc_tie ! 0) = acc_sum_over (top_tim acc_tie ! 1)
   \<and> acc_sum_cnt (top_tim acc_tie ! 0) = acc_sum_cnt (top_tim acc_tie ! 1)
   \<and> \<not> acc_sid (top_tim acc_tie ! 0) \<le> acc_sid (top_tim acc_tie ! 1)"
  by code_simp


section \<open>Finalization and late reconciliation: results\<close>










end
